theory Spec2Isabelle
  imports Main "HOL-Library.Word"
begin

section \<open>The interpreter example: data model\<close>

text \<open>
  The Go \<^verbatim>\<open>int\<close> of a 64-bit platform: addition and subtraction wrap around.
\<close>

type_synonym go_int = "64 word"

text \<open>
  The \<^verbatim>\<open>Node\<close> interface with its three implementations. A field of interface type
  can hold \<^verbatim>\<open>nil\<close> (the zero value of \<^verbatim>\<open>Parser.prev\<close>), which is the
  constructor \<open>Nil_Node\<close>.
\<close>

datatype Node =
    Nil_Node
  | ValNode go_int
  | AddNode Node Node
  | MinNode Node Node

text \<open>The two run-time panics the code can raise.\<close>

datatype panic = IndexOutOfRange | NilDereference

text \<open>
  \<^verbatim>\<open>Interpret\<close>: a method call on a nil interface value panics; the operands of
  \<^verbatim>\<open>+\<close> and \<^verbatim>\<open>-\<close> are evaluated left to right.
\<close>

fun Interpret :: "Node \<Rightarrow> panic + go_int" where
  "Interpret Nil_Node = Inl NilDereference"
| "Interpret (ValNode v) = Inr v"
| "Interpret (AddNode l r) =
     (case Interpret l of
        Inl e \<Rightarrow> Inl e
      | Inr a \<Rightarrow> (case Interpret r of Inl e \<Rightarrow> Inl e | Inr b \<Rightarrow> Inr (a + b)))"
| "Interpret (MinNode l r) =
     (case Interpret l of
        Inl e \<Rightarrow> Inl e
      | Inr a \<Rightarrow> (case Interpret r of Inl e \<Rightarrow> Inl e | Inr b \<Rightarrow> Inr (a - b)))"

record Parser =
  exp :: "string list"
  index :: nat
  prev :: Node

text \<open>The zero value \<^verbatim>\<open>Parser{}\<close>.\<close>

definition zeroParser :: Parser where
  "zeroParser = \<lparr>exp = [], index = 0, prev = Nil_Node\<rparr>"

section \<open>Library functions the parser calls\<close>

text \<open>
  \<^verbatim>\<open>strings.Split(s, sep)\<close> for a separator of one byte, which is how the parser
  calls it: cut at the first occurrence of the separator and go on with what follows
  it; the part after the last separator (the whole string when there is none) is the
  last element, so the result is never empty.
\<close>

function Split :: "string \<Rightarrow> char \<Rightarrow> string list" where
  "Split s sep =
     (case dropWhile (\<lambda>c. c \<noteq> sep) s of
        [] \<Rightarrow> [s]
      | _ # rest \<Rightarrow> takeWhile (\<lambda>c. c \<noteq> sep) s # Split rest sep)"
  by pat_completeness auto
termination
proof (relation "measure (\<lambda>(s, sep). length s)")
  show "wf (measure (\<lambda>(s, sep). length s))" by simp
next
  fix s :: string and sep :: char and x rest
  assume "dropWhile (\<lambda>c. c \<noteq> sep) s = x # rest"
  then have "length (x # rest) \<le> length s"
    using length_dropWhile_le [of "\<lambda>c. c \<noteq> sep" s] by simp
  then show "((rest, sep), (s, sep)) \<in> measure (\<lambda>(s, sep). length s)" by simp
qed

declare Split.simps [simp del]

text \<open>
  \<^verbatim>\<open>strconv.Atoi\<close> as the Go library computes it where \<^verbatim>\<open>int\<close> has 64 bits. A string
  of 1 to 18 bytes takes the fast path: an optional sign, then digits only, else a
  syntax error with the value 0. Every other string goes through \<^verbatim>\<open>ParseInt\<close>, whose
  \<^verbatim>\<open>ParseUint\<close> reads the bytes from the left and stops at the first byte that is not a
  digit (syntax error, value 0) or at the first digit at which the number leaves
  \<^verbatim>\<open>uint64\<close> (range error); on a range error \<^verbatim>\<open>ParseInt\<close> returns the nearest bound of
  \<^verbatim>\<open>int\<close>.
\<close>

datatype NumError = ErrSyntax | ErrRange

definition isDigit :: "char \<Rightarrow> bool" where
  "isDigit c = (48 \<le> (of_char c :: int) \<and> (of_char c :: int) \<le> 57)"

definition digitVal :: "char \<Rightarrow> int" where
  "digitVal c = of_char c - 48"

definition digitsVal :: "string \<Rightarrow> int" where
  "digitsVal ds = foldl (\<lambda>n c. n * 10 + digitVal c) 0 ds"

definition hasSign :: "string \<Rightarrow> bool" where
  "hasSign s = (case s of [] \<Rightarrow> False | c # _ \<Rightarrow> c = CHR ''+'' \<or> c = CHR ''-'')"

definition unsignedPart :: "string \<Rightarrow> string" where
  "unsignedPart s = (if hasSign s then tl s else s)"

definition maxInt :: int where
  "maxInt = 2 ^ 63 - 1"

definition minInt :: int where
  "minInt = - (2 ^ 63)"

definition maxUint64 :: int where
  "maxUint64 = 2 ^ 64 - 1"

text \<open>
  The loop of the fast path: \<open>None\<close> at a byte that is not a digit. With at most 18
  digits the number stays below \<open>10\<^sup>1\<^sup>8\<close>, inside \<^verbatim>\<open>int\<close>.
\<close>

fun atoiDigits :: "int \<Rightarrow> string \<Rightarrow> int option" where
  "atoiDigits n [] = Some n"
| "atoiDigits n (c # cs) =
     (if isDigit c then atoiDigits (n * 10 + digitVal c) cs else None)"

definition atoiFast :: "string \<Rightarrow> go_int \<times> NumError option" where
  "atoiFast s =
     (let body = unsignedPart s in
      if body = [] then (0, Some ErrSyntax)
      else (case atoiDigits 0 body of
              None \<Rightarrow> (0, Some ErrSyntax)
            | Some n \<Rightarrow> (word_of_int (if hd s = CHR ''-'' then - n else n), None)))"

text \<open>
  The loop of \<^verbatim>\<open>ParseUint\<close> in base 10, on a \<^verbatim>\<open>uint64\<close> written as an integer with its
  wrap-around: the byte is checked first, then \<^verbatim>\<open>n >= cutoff\<close>, then the sum
  \<^verbatim>\<open>n1 < n || n1 > maxVal\<close>.
\<close>

fun ParseUintLoop :: "int \<Rightarrow> string \<Rightarrow> int \<times> NumError option" where
  "ParseUintLoop n [] = (n, None)"
| "ParseUintLoop n (c # cs) =
     (if \<not> isDigit c then (0, Some ErrSyntax)
      else if n \<ge> maxUint64 div 10 + 1 then (maxUint64, Some ErrRange)
      else
        (let n' = (n * 10) mod 2 ^ 64;
             n1 = (n' + digitVal c) mod 2 ^ 64
         in if n1 < n' \<or> n1 > maxUint64 then (maxUint64, Some ErrRange)
            else ParseUintLoop n1 cs))"

definition ParseUint :: "string \<Rightarrow> int \<times> NumError option" where
  "ParseUint s = (if s = [] then (0, Some ErrSyntax) else ParseUintLoop 0 s)"

text \<open>
  \<^verbatim>\<open>ParseInt\<close>: the sign is taken off, a syntax error of \<^verbatim>\<open>ParseUint\<close> is passed on with
  the value 0, and the unsigned number is checked against \<open>2\<^sup>6\<^sup>3\<close>.
\<close>

definition ParseInt :: "string \<Rightarrow> go_int \<times> NumError option" where
  "ParseInt s =
     (if s = [] then (0, Some ErrSyntax)
      else
        (let neg = (hd s = CHR ''-'') in
         case ParseUint (unsignedPart s) of
           (un, Some ErrSyntax) \<Rightarrow> (0, Some ErrSyntax)
         | (un, _) \<Rightarrow>
             if \<not> neg \<and> un \<ge> 2 ^ 63 then (word_of_int (2 ^ 63 - 1), Some ErrRange)
             else if neg \<and> un > 2 ^ 63 then (- word_of_int (2 ^ 63), Some ErrRange)
             else (if neg then - word_of_int un else word_of_int un, None)))"

definition Atoi :: "string \<Rightarrow> go_int \<times> NumError option" where
  "Atoi s = (if 0 < length s \<and> length s < 19 then atoiFast s else ParseInt s)"

section \<open>The parser\<close>

text \<open>
  \<^verbatim>\<open>newValNode\<close>: indexing the token slice past its end panics; the error of
  \<^verbatim>\<open>Atoi\<close> is discarded.
\<close>

definition newValNode :: "Parser \<Rightarrow> panic + (Node \<times> Parser)" where
  "newValNode p =
     (if index p < length (exp p)
      then (case Atoi (exp p ! index p) of
              (v, _) \<Rightarrow> Inr (ValNode v, p\<lparr>index := index p + 1\<rparr>))
      else Inl IndexOutOfRange)"

definition newAddNode :: "Parser \<Rightarrow> panic + (Node \<times> Parser)" where
  "newAddNode p =
     (let p1 = p\<lparr>index := index p + 1\<rparr> in
      case newValNode p1 of
        Inl e \<Rightarrow> Inl e
      | Inr (r, p2) \<Rightarrow> Inr (AddNode (prev p1) r, p2))"

definition newMinNode :: "Parser \<Rightarrow> panic + (Node \<times> Parser)" where
  "newMinNode p =
     (let p1 = p\<lparr>index := index p + 1\<rparr> in
      case newValNode p1 of
        Inl e \<Rightarrow> Inl e
      | Inr (r, p2) \<Rightarrow> Inr (MinNode (prev p1) r, p2))"

text \<open>
  One iteration of the loop of \<^verbatim>\<open>Parse\<close> past its exit test: the switch on
  \<^verbatim>\<open>p.exp[p.index]\<close>, whose result is assigned to \<^verbatim>\<open>p.prev\<close>.
\<close>

definition loopBody :: "Parser \<Rightarrow> panic + Parser" where
  "loopBody p =
     (if index p < length (exp p)
      then (case (if exp p ! index p = ''+'' then newAddNode p
                  else if exp p ! index p = ''-'' then newMinNode p
                  else newValNode p) of
              Inl e \<Rightarrow> Inl e
            | Inr (n, p') \<Rightarrow> Inr (p'\<lparr>prev := n\<rparr>))
      else Inl IndexOutOfRange)"

text \<open>
  The loop of \<^verbatim>\<open>Parse\<close>: it returns when the cursor has reached the end of the
  tokens. The cursor never decreases, so it is a natural number here.
\<close>

function ParseLoop :: "Parser \<Rightarrow> panic + Parser" where
  "ParseLoop p =
     (if index p \<ge> length (exp p) then Inr p
      else (case loopBody p of
              Inl e \<Rightarrow> Inl e
            | Inr p' \<Rightarrow> ParseLoop p'))"
  by pat_completeness auto
termination
proof (relation "measure (\<lambda>p. length (exp p) - index p)")
  show "wf (measure (\<lambda>p. length (exp p) - index p))" by simp
next
  fix p p'
  assume "\<not> length (exp p) \<le> index p" and "loopBody p = Inr p'"
  then show "(p', p) \<in> measure (\<lambda>p. length (exp p) - index p)"
    by (auto simp: loopBody_def newAddNode_def newMinNode_def newValNode_def Let_def
        split: if_splits sum.splits prod.splits)
qed

declare ParseLoop.simps [simp del]

text \<open>
  \<^verbatim>\<open>Parse\<close> stores the tokens and runs the loop; \<^verbatim>\<open>index\<close> and \<^verbatim>\<open>prev\<close> are
  those the parser has when it is called.
\<close>

definition Parse :: "Parser \<Rightarrow> string \<Rightarrow> panic + Parser" where
  "Parse p s = ParseLoop (p\<lparr>exp := Split s CHR '' ''\<rparr>)"

text \<open>
  The whole pipeline: a fresh parser parses the string, and the root node it leaves in
  \<^verbatim>\<open>prev\<close> is interpreted.
\<close>

definition interpretString :: "string \<Rightarrow> panic + go_int" where
  "interpretString s =
     (case Parse zeroParser s of Inl e \<Rightarrow> Inl e | Inr p \<Rightarrow> Interpret (prev p))"

text \<open>
  The same loop with a bound on the number of iterations: \<open>None\<close> when the bound is
  used up before the loop exits.
\<close>

fun ParseFuel :: "nat \<Rightarrow> Parser \<Rightarrow> (panic + Parser) option" where
  "ParseFuel 0 p = (if index p \<ge> length (exp p) then Some (Inr p) else None)"
| "ParseFuel (Suc n) p =
     (if index p \<ge> length (exp p) then Some (Inr p)
      else (case loopBody p of
              Inl e \<Rightarrow> Some (Inl e)
            | Inr p' \<Rightarrow> ParseFuel n p'))"

section \<open>Vocabulary for the properties\<close>

text \<open>\<^verbatim>\<open>strings.Join\<close>: the elements with the separator between them.\<close>

fun Join :: "string list \<Rightarrow> string \<Rightarrow> string" where
  "Join [] sep = []"
| "Join [t] sep = t"
| "Join (t # u # ts) sep = t @ sep @ Join (u # ts) sep"

text \<open>The two tokens the switch of \<^verbatim>\<open>Parse\<close> recognises.\<close>

definition isOp :: "string \<Rightarrow> bool" where
  "isOp t = (t = ''+'' \<or> t = ''-'')"

text \<open>An integer literal: an optional sign and at least one decimal digit.\<close>

definition isLiteral :: "string \<Rightarrow> bool" where
  "isLiteral s = (unsignedPart s \<noteq> [] \<and> list_all isDigit (unsignedPart s))"

text \<open>The integer a literal denotes, and the range of \<^verbatim>\<open>int\<close>.\<close>

definition literalValue :: "string \<Rightarrow> int" where
  "literalValue s =
     (if hd s = CHR ''-'' then - digitsVal (unsignedPart s) else digitsVal (unsignedPart s))"

definition inRange :: "int \<Rightarrow> bool" where
  "inRange v = (minInt \<le> v \<and> v \<le> maxInt)"

text \<open>The digits a token starts with, after its sign.\<close>

definition leadingDigits :: "string \<Rightarrow> string" where
  "leadingDigits s = takeWhile isDigit (unsignedPart s)"

text \<open>The value \<^verbatim>\<open>newValNode\<close> stores for a token: what \<^verbatim>\<open>Atoi\<close> returns, its error dropped.\<close>

definition atoiVal :: "string \<Rightarrow> go_int" where
  "atoiVal t = fst (Atoi t)"

text \<open>
  An expression \<open>v op\<^sub>1 v\<^sub>1 \<dots> op\<^sub>n v\<^sub>n\<close> is given by its first token and the list of
  its (operator, operand) pairs.
\<close>

definition pairTokens :: "(string \<times> string) list \<Rightarrow> string list" where
  "pairTokens rest = concat (map (\<lambda>(o', x). [o', x]) rest)"

definition chainTokens :: "string \<Rightarrow> (string \<times> string) list \<Rightarrow> string list" where
  "chainTokens v rest = v # pairTokens rest"

text \<open>The node the switch builds for an operator token.\<close>

definition opNode :: "string \<Rightarrow> Node \<Rightarrow> Node \<Rightarrow> Node" where
  "opNode o' l r = (if o' = ''+'' then AddNode l r else MinNode l r)"

text \<open>The tree that wraps \<open>t\<close> once per pair, and the left-to-right fold of the values.\<close>

definition chainTree :: "Node \<Rightarrow> (string \<times> string) list \<Rightarrow> Node" where
  "chainTree t rest = foldl (\<lambda>acc (o', x). opNode o' acc (ValNode (atoiVal x))) t rest"

definition chainFold :: "go_int \<Rightarrow> (string \<times> string) list \<Rightarrow> go_int" where
  "chainFold a rest =
     foldl (\<lambda>acc (o', x). if o' = ''+'' then acc + atoiVal x else acc - atoiVal x) a rest"

definition intFold :: "int \<Rightarrow> (string \<times> string) list \<Rightarrow> int" where
  "intFold a rest =
     foldl (\<lambda>acc (o', x). if o' = ''+'' then acc + literalValue x else acc - literalValue x)
       a rest"

text \<open>Counting the nodes of a tree, and the shape of its operator nodes.\<close>

fun isValNode :: "Node \<Rightarrow> bool" where
  "isValNode (ValNode v) = True"
| "isValNode n = False"

fun isOpNode :: "Node \<Rightarrow> bool" where
  "isOpNode (AddNode l r) = True"
| "isOpNode (MinNode l r) = True"
| "isOpNode n = False"

fun countOps :: "Node \<Rightarrow> nat" where
  "countOps (AddNode l r) = 1 + countOps l + countOps r"
| "countOps (MinNode l r) = 1 + countOps l + countOps r"
| "countOps n = 0"

fun countVals :: "Node \<Rightarrow> nat" where
  "countVals (ValNode v) = 1"
| "countVals (AddNode l r) = countVals l + countVals r"
| "countVals (MinNode l r) = countVals l + countVals r"
| "countVals Nil_Node = 0"

text \<open>
  Every operator node has a value node as its right child and a value node or an
  operator node as its left child.
\<close>

fun shapeOK :: "Node \<Rightarrow> bool" where
  "shapeOK (AddNode l r) =
     (isValNode r \<and> (isValNode l \<or> isOpNode l) \<and> shapeOK l \<and> shapeOK r)"
| "shapeOK (MinNode l r) =
     (isValNode r \<and> (isValNode l \<or> isOpNode l) \<and> shapeOK l \<and> shapeOK r)"
| "shapeOK n = True"

text \<open>A tree without a nil operand.\<close>

fun noNil :: "Node \<Rightarrow> bool" where
  "noNil Nil_Node = False"
| "noNil (ValNode v) = True"
| "noNil (AddNode l r) = (noNil l \<and> noNil r)"
| "noNil (MinNode l r) = (noNil l \<and> noNil r)"

section \<open>Splitting and joining\<close>

lemma Split_no_sep: "sep \<notin> set s \<Longrightarrow> Split s sep = [s]"
proof -
  assume "sep \<notin> set s"
  then have d: "dropWhile (\<lambda>c. c \<noteq> sep) s = []" by auto
  show ?thesis by (subst Split.simps) (simp only: d list.case)
qed

lemma Split_first: "sep \<notin> set a \<Longrightarrow> Split (a @ sep # b) sep = a # Split b sep"
proof -
  assume h: "sep \<notin> set a"
  then have d: "dropWhile (\<lambda>c. c \<noteq> sep) (a @ sep # b) = sep # b"
    by (induction a) auto
  from h have t: "takeWhile (\<lambda>c. c \<noteq> sep) (a @ sep # b) = a"
    by (induction a) auto
  show ?thesis
    by (subst Split.simps) (simp add: d t)
qed

lemma Split_not_Nil: "Split s sep \<noteq> []"
proof (cases "dropWhile (\<lambda>c. c \<noteq> sep) s")
  case Nil
  show ?thesis by (subst Split.simps) (simp only: Nil list.simps not_False_eq_True)
next
  case (Cons x rest)
  show ?thesis by (subst Split.simps) (simp only: Cons list.simps not_False_eq_True)
qed

lemma Split_append_sep: "Split (a @ sep # b) sep = Split a sep @ Split b sep"
proof (induction a sep rule: Split.induct)
  case (1 s sep)
  show ?case
  proof (cases "dropWhile (\<lambda>c. c \<noteq> sep) s")
    case Nil
    then have "sep \<notin> set s"
      by auto
    then show ?thesis by (simp add: Split_first Split_no_sep)
  next
    case (Cons x rest)
    have "dropWhile (\<lambda>c. c \<noteq> sep) s \<noteq> []"
      using Cons by simp
    from hd_dropWhile [OF this] have x: "x = sep"
      using Cons by simp
    have s: "s = takeWhile (\<lambda>c. c \<noteq> sep) s @ sep # rest"
      using Cons x takeWhile_dropWhile_id [of "\<lambda>c. c \<noteq> sep" s] by simp
    have n: "sep \<notin> set (takeWhile (\<lambda>c. c \<noteq> sep) s)"
      by (auto dest: set_takeWhileD)
    have "Split (s @ sep # b) sep
        = Split (takeWhile (\<lambda>c. c \<noteq> sep) s @ sep # (rest @ sep # b)) sep"
      by (subst s) simp
    also have "\<dots> = takeWhile (\<lambda>c. c \<noteq> sep) s # Split (rest @ sep # b) sep"
      using n by (rule Split_first)
    also have "\<dots> = takeWhile (\<lambda>c. c \<noteq> sep) s # (Split rest sep @ Split b sep)"
      using "1.IH" [OF Cons] by simp
    also have "\<dots> = Split s sep @ Split b sep"
      by (subst (2) Split.simps) (simp add: Cons)
    finally show ?thesis .
  qed
qed

lemma Split_Join:
  "ts \<noteq> [] \<Longrightarrow> \<forall>t \<in> set ts. sep \<notin> set t \<Longrightarrow> Split (Join ts [sep]) sep = ts"
proof (induction ts "[sep]" rule: Join.induct)
  case 1
  then show ?case by simp
next
  case (2 t)
  then show ?case by (simp add: Split_no_sep)
next
  case (3 t u ts)
  then show ?case by (simp add: Split_first)
qed

section \<open>Literals and what Atoi returns\<close>

lemma isLiteral_not_op: "isLiteral s \<Longrightarrow> \<not> isOp s"
  by (auto simp: isLiteral_def isOp_def unsignedPart_def hasSign_def)

lemma isLiteral_no_space: "isLiteral s \<Longrightarrow> CHR '' '' \<notin> set s"
proof
  assume l: "isLiteral s" and m: "CHR '' '' \<in> set s"
  from l have d: "list_all isDigit (unsignedPart s)" by (simp add: isLiteral_def)
  have "CHR '' '' \<in> set (unsignedPart s)"
  proof (cases s)
    case Nil
    with m show ?thesis by simp
  next
    case (Cons c cs)
    with m show ?thesis by (auto simp: unsignedPart_def hasSign_def)
  qed
  with d have "isDigit CHR '' ''" by (simp add: list_all_iff)
  then show False by (simp add: isDigit_def)
qed

lemma digitVal_nonneg: "isDigit c \<Longrightarrow> 0 \<le> digitVal c \<and> digitVal c \<le> 9"
  by (simp add: isDigit_def digitVal_def)

lemma atoiDigits_digits:
  "list_all isDigit ds \<Longrightarrow> atoiDigits n ds = Some (foldl (\<lambda>n c. n * 10 + digitVal c) n ds)"
  by (induction ds arbitrary: n) simp_all

lemma atoiDigits_bad: "\<not> list_all isDigit ds \<Longrightarrow> atoiDigits n ds = None"
  by (induction ds arbitrary: n) simp_all

lemma digits_mono:
  "0 \<le> n \<Longrightarrow> list_all isDigit ds \<Longrightarrow> n \<le> foldl (\<lambda>n c. n * 10 + digitVal c) n ds"
proof (induction ds arbitrary: n)
  case Nil
  then show ?case by simp
next
  case (Cons c cs)
  then have d: "0 \<le> digitVal c" using digitVal_nonneg [of c] by simp
  with Cons.prems have "0 \<le> n * 10 + digitVal c" and "n \<le> n * 10 + digitVal c" by simp_all
  moreover from Cons.prems have "list_all isDigit cs" by simp
  ultimately have "n * 10 + digitVal c \<le> foldl (\<lambda>n c. n * 10 + digitVal c) (n * 10 + digitVal c) cs"
    by (intro Cons.IH)
  with \<open>n \<le> n * 10 + digitVal c\<close> show ?case by simp
qed


lemma ParseUintLoop_step:
  assumes "isDigit c" and "0 \<le> n"
  shows "ParseUintLoop n (c # cs) =
    (if n * 10 + digitVal c \<le> maxUint64 then ParseUintLoop (n * 10 + digitVal c) cs
     else (maxUint64, Some ErrRange))"
proof -
  from digitVal_nonneg [OF assms(1)] have d: "0 \<le> digitVal c" "digitVal c \<le> 9" by simp_all
  show ?thesis
  proof (cases "n \<ge> maxUint64 div 10 + 1")
    case True
    then have "\<not> n * 10 + digitVal c \<le> maxUint64"
      using d by (simp add: maxUint64_def)
    with True assms(1) show ?thesis by simp
  next
    case False
    then have n: "n * 10 < 2 ^ 64" by (simp add: maxUint64_def)
    then have m: "(n * 10) mod 2 ^ 64 = n * 10"
      using assms(2) by simp
    show ?thesis
    proof (cases "n * 10 + digitVal c \<le> maxUint64")
      case True
      then have "(n * 10 + digitVal c) mod 2 ^ 64 = n * 10 + digitVal c"
        using assms(2) d by (simp add: maxUint64_def)
      with True False assms(1) d m show ?thesis by simp
    next
      case over: False
      have "(n * 10 + digitVal c) mod 2 ^ 64 = n * 10 + digitVal c - 2 ^ 64"
      proof (rule mod_pos_pos_trivial [of "n * 10 + digitVal c - 2 ^ 64" "2 ^ 64" , THEN [2] trans])
        show "0 \<le> n * 10 + digitVal c - (2 ^ 64 :: int)" using over by (simp add: maxUint64_def)
        show "n * 10 + digitVal c - 2 ^ 64 < (2 ^ 64 :: int)" using n d by simp
        show "(n * 10 + digitVal c) mod 2 ^ 64 = (n * 10 + digitVal c - 2 ^ 64) mod 2 ^ 64"
          by (simp add: mod_diff_right_eq [symmetric] del: mod_diff_right_eq)
      qed
      then have "(n * 10 + digitVal c) mod 2 ^ 64 < n * 10"
        using d by simp
      with over False assms(1) m show ?thesis by simp
    qed
  qed
qed


declare ParseUintLoop.simps(2) [simp del]

lemma ParseUintLoop_digits:
  "0 \<le> n \<Longrightarrow> list_all isDigit ds \<Longrightarrow>
   foldl (\<lambda>n c. n * 10 + digitVal c) n ds \<le> maxUint64 \<Longrightarrow>
   ParseUintLoop n ds = (foldl (\<lambda>n c. n * 10 + digitVal c) n ds, None)"
proof (induction ds arbitrary: n)
  case Nil
  then show ?case by simp
next
  case (Cons c cs)
  let ?m = "n * 10 + digitVal c"
  from Cons.prems have c: "isDigit c" and cs: "list_all isDigit cs" by simp_all
  from digitVal_nonneg [OF c] Cons.prems(1) have m: "0 \<le> ?m" by simp
  from digits_mono [OF m cs] Cons.prems(3) have "?m \<le> maxUint64" by simp
  then have "ParseUintLoop n (c # cs) = ParseUintLoop ?m cs"
    using ParseUintLoop_step [OF c Cons.prems(1)] by simp
  also have "\<dots> = (foldl (\<lambda>n c. n * 10 + digitVal c) ?m cs, None)"
    using m cs Cons.prems(3) by (intro Cons.IH) simp_all
  finally show ?case by simp
qed

lemma ParseUintLoop_bad:
  "0 \<le> n \<Longrightarrow> n \<le> maxUint64 \<Longrightarrow> \<not> list_all isDigit ds \<Longrightarrow>
   ParseUintLoop n ds =
     (if foldl (\<lambda>n c. n * 10 + digitVal c) n (takeWhile isDigit ds) \<le> maxUint64
      then (0, Some ErrSyntax) else (maxUint64, Some ErrRange))"
proof (induction ds arbitrary: n)
  case Nil
  then show ?case by simp
next
  case (Cons c cs)
  show ?case
  proof (cases "isDigit c")
    case False
    with Cons.prems show ?thesis by (simp add: ParseUintLoop.simps(2))
  next
    case True
    let ?m = "n * 10 + digitVal c"
    from Cons.prems True have cs: "\<not> list_all isDigit cs" by simp
    from digitVal_nonneg [OF True] Cons.prems(1) have m: "0 \<le> ?m" by simp
    have t: "list_all isDigit (takeWhile isDigit cs)"
      by (simp add: list_all_iff) (auto dest: set_takeWhileD)
    show ?thesis
    proof (cases "?m \<le> maxUint64")
      case le: True
      then have "ParseUintLoop n (c # cs) = ParseUintLoop ?m cs"
        using ParseUintLoop_step [OF True Cons.prems(1)] by simp
      also have "\<dots> =
          (if foldl (\<lambda>n c. n * 10 + digitVal c) ?m (takeWhile isDigit cs) \<le> maxUint64
           then (0, Some ErrSyntax) else (maxUint64, Some ErrRange))"
        using m le cs by (rule Cons.IH)
      finally show ?thesis using True by simp
    next
      case over: False
      then have "ParseUintLoop n (c # cs) = (maxUint64, Some ErrRange)"
        using ParseUintLoop_step [OF True Cons.prems(1)] by simp
      moreover have "\<not> foldl (\<lambda>n c. n * 10 + digitVal c) ?m (takeWhile isDigit cs) \<le> maxUint64"
        using digits_mono [OF m t] over by simp
      ultimately show ?thesis using True by simp
    qed
  qed
qed

lemma Atoi_literal:
  assumes "isLiteral t" and "inRange (literalValue t)"
  shows "Atoi t = (word_of_int (literalValue t), None)"
proof -
  let ?b = "unsignedPart t"
  from assms(1) have b: "?b \<noteq> []" and d: "list_all isDigit ?b"
    by (simp_all add: isLiteral_def)
  from b have t: "t \<noteq> []" by (auto simp: unsignedPart_def hasSign_def)
  have v: "literalValue t = (if hd t = CHR ''-'' then - digitsVal ?b else digitsVal ?b)"
    by (simp add: literalValue_def)
  have pos: "0 \<le> digitsVal ?b"
    using digits_mono [of 0 ?b] d by (simp add: digitsVal_def)
  show ?thesis
  proof (cases "length t < 19")
    case True
    have "atoiDigits 0 ?b = Some (digitsVal ?b)"
      using d by (simp add: atoiDigits_digits digitsVal_def)
    then show ?thesis
      using True t b by (simp add: Atoi_def atoiFast_def v)
  next
    case False
    from assms(2) pos have r: "digitsVal ?b \<le> 2 ^ 63"
      and r': "hd t \<noteq> CHR ''-'' \<Longrightarrow> digitsVal ?b < 2 ^ 63"
      by (auto simp: inRange_def v minInt_def maxInt_def split: if_splits)
    then have "foldl (\<lambda>n c. n * 10 + digitVal c) 0 ?b \<le> maxUint64"
      by (simp add: digitsVal_def maxUint64_def)
    then have "ParseUintLoop 0 ?b = (digitsVal ?b, None)"
      using d by (simp add: ParseUintLoop_digits digitsVal_def)
    then have u: "ParseUint ?b = (digitsVal ?b, None)"
      using b by (simp add: ParseUint_def)
    have "ParseInt t = (word_of_int (literalValue t), None)"
    proof (cases "hd t = CHR ''-''")
      case True
      with u r t show ?thesis by (simp add: ParseInt_def v)
    next
      case False
      with u r' [OF False] t show ?thesis by (simp add: ParseInt_def v)
    qed
    then show ?thesis
      using False by (simp add: Atoi_def)
  qed
qed

lemma Atoi_not_literal:
  assumes "\<not> isLiteral t"
  shows "Atoi t =
    (if length t < 19 \<or> digitsVal (leadingDigits t) \<le> maxUint64 then (0, Some ErrSyntax)
     else (word_of_int (if hd t = CHR ''-'' then minInt else maxInt), Some ErrRange))"
proof -
  let ?b = "unsignedPart t"
  from assms have n: "?b = [] \<or> \<not> list_all isDigit ?b"
    by (auto simp: isLiteral_def)
  show ?thesis
  proof (cases "t = []")
    case True
    then show ?thesis by (simp add: Atoi_def ParseInt_def)
  next
    case t: False
    show ?thesis
    proof (cases "length t < 19")
      case True
      have "atoiFast t = (0, Some ErrSyntax)"
        using n by (auto simp: atoiFast_def atoiDigits_bad Let_def)
      then show ?thesis using True t by (simp add: Atoi_def)
    next
      case False
      then have "?b \<noteq> []"
        by (cases t) (auto simp: unsignedPart_def)
      with n have bad: "\<not> list_all isDigit ?b" by simp
      have u: "ParseUint ?b =
          (if digitsVal (leadingDigits t) \<le> maxUint64
           then (0, Some ErrSyntax) else (maxUint64, Some ErrRange))"
        using ParseUintLoop_bad [of 0 ?b] bad \<open>?b \<noteq> []\<close>
        by (simp add: ParseUint_def digitsVal_def leadingDigits_def maxUint64_def)
      show ?thesis
        using False t by (simp add: Atoi_def ParseInt_def u maxUint64_def minInt_def maxInt_def)
    qed
  qed
qed

lemma Atoi_short:
  "\<not> isLiteral t \<Longrightarrow> length t < 19 \<Longrightarrow> Atoi t = (0, Some ErrSyntax)"
  by (simp add: Atoi_not_literal)

lemma sint_in_range: "inRange x \<Longrightarrow> sint (word_of_int x :: go_int) = x"
proof -
  assume "inRange x"
  then have "- (2 ^ 63) \<le> x" and "x < 2 ^ 63"
    by (simp_all add: inRange_def minInt_def maxInt_def)
  then have "signed_take_bit 63 x = x"
    by (rule signed_take_bit_int_eq_self)
  then show ?thesis
    by (simp add: sint_sbintrunc')
qed

lemma atoiVal_op: "isOp t \<Longrightarrow> atoiVal t = 0"
proof -
  assume "isOp t"
  then have "\<not> isLiteral t" using isLiteral_not_op [of t] by blast
  moreover have "length t < 19" using \<open>isOp t\<close> by (auto simp: isOp_def)
  ultimately show ?thesis by (simp add: atoiVal_def Atoi_short)
qed

section \<open>Iterations of the loop\<close>

lemma loopBody_value:
  "index p < length (exp p) \<Longrightarrow> \<not> isOp (exp p ! index p) \<Longrightarrow>
   loopBody p = Inr (p\<lparr>index := index p + 1, prev := ValNode (atoiVal (exp p ! index p))\<rparr>)"
  by (simp add: loopBody_def newValNode_def isOp_def atoiVal_def split: prod.splits)

lemma loopBody_op:
  "index p + 1 < length (exp p) \<Longrightarrow> isOp (exp p ! index p) \<Longrightarrow>
   loopBody p = Inr (p\<lparr>index := index p + 2,
      prev := opNode (exp p ! index p) (prev p) (ValNode (atoiVal (exp p ! (index p + 1))))\<rparr>)"
  by (auto simp: loopBody_def newAddNode_def newMinNode_def newValNode_def isOp_def
      atoiVal_def opNode_def Let_def split: prod.splits)

lemma loopBody_op_last:
  "index p + 1 = length (exp p) \<Longrightarrow> isOp (exp p ! index p) \<Longrightarrow>
   loopBody p = Inl IndexOutOfRange"
  by (auto simp: loopBody_def newAddNode_def newMinNode_def newValNode_def isOp_def Let_def)

lemma loopBody_Inr:
  assumes "index p < length (exp p)" and "loopBody p = Inr p'"
  shows "exp p' = exp p \<and> index p' = index p + (if isOp (exp p ! index p) then 2 else 1)
    \<and> index p' \<le> length (exp p)"
  using assms
  by (auto simp: loopBody_def newAddNode_def newMinNode_def newValNode_def Let_def isOp_def
      split: if_splits sum.splits prod.splits)

lemma loopBody_noNil:
  assumes "noNil (prev p)" and "loopBody p = Inr p'"
  shows "noNil (prev p')"
  using assms
  by (auto simp: loopBody_def newAddNode_def newMinNode_def newValNode_def Let_def
      split: if_splits sum.splits prod.splits)

lemma loopBody_Inl: "loopBody p = Inl e \<Longrightarrow> e = IndexOutOfRange"
  by (auto simp: loopBody_def newAddNode_def newMinNode_def newValNode_def Let_def
      split: if_splits sum.splits prod.splits)

lemma ParseLoop_done: "length (exp p) \<le> index p \<Longrightarrow> ParseLoop p = Inr p"
  by (subst ParseLoop.simps) simp

lemma ParseLoop_value:
  "index p < length (exp p) \<Longrightarrow> \<not> isOp (exp p ! index p) \<Longrightarrow>
   ParseLoop p =
     ParseLoop (p\<lparr>index := index p + 1, prev := ValNode (atoiVal (exp p ! index p))\<rparr>)"
  by (subst ParseLoop.simps) (simp add: loopBody_value)

lemma ParseLoop_op:
  "index p + 1 < length (exp p) \<Longrightarrow> isOp (exp p ! index p) \<Longrightarrow>
   ParseLoop p =
     ParseLoop (p\<lparr>index := index p + 2,
       prev := opNode (exp p ! index p) (prev p) (ValNode (atoiVal (exp p ! (index p + 1))))\<rparr>)"
  by (subst ParseLoop.simps) (simp add: loopBody_op)

lemma ParseLoop_op_last:
  "index p + 1 = length (exp p) \<Longrightarrow> isOp (exp p ! index p) \<Longrightarrow>
   ParseLoop p = Inl IndexOutOfRange"
  by (subst ParseLoop.simps) (simp add: loopBody_op_last)

lemma ParseLoop_noNil: "noNil (prev p) \<Longrightarrow> ParseLoop p = Inr p' \<Longrightarrow> noNil (prev p')"
proof (induction p rule: ParseLoop.induct)
  case (1 p)
  show ?case
  proof (cases "length (exp p) \<le> index p")
    case True
    with "1.prems" show ?thesis by (simp add: ParseLoop_done)
  next
    case False
    show ?thesis
    proof (cases "loopBody p")
      case (Inl e)
      have "ParseLoop p = Inl e"
        by (subst ParseLoop.simps) (simp add: False Inl)
      with "1.prems" show ?thesis by simp
    next
      case (Inr q)
      have "ParseLoop p = ParseLoop q"
        by (subst ParseLoop.simps) (simp add: False Inr)
      with "1.prems" have "ParseLoop q = Inr p'" by simp
      moreover have "noNil (prev q)"
        using "1.prems"(1) Inr by (rule loopBody_noNil)
      ultimately show ?thesis
        using "1.IH" [OF False Inr] by blast
    qed
  qed
qed

lemma ParseLoop_Inl: "ParseLoop p = Inl e \<Longrightarrow> e = IndexOutOfRange"
proof (induction p rule: ParseLoop.induct)
  case (1 p)
  show ?case
  proof (cases "length (exp p) \<le> index p")
    case True
    with "1.prems" show ?thesis by (simp add: ParseLoop_done)
  next
    case False
    show ?thesis
    proof (cases "loopBody p")
      case (Inl e')
      have "ParseLoop p = Inl e'"
        by (subst ParseLoop.simps) (simp add: False Inl)
      with "1.prems" Inl show ?thesis by (simp add: loopBody_Inl)
    next
      case (Inr q)
      have "ParseLoop p = ParseLoop q"
        by (subst ParseLoop.simps) (simp add: False Inr)
      with "1.prems" have "ParseLoop q = Inl e" by simp
      then show ?thesis
        using "1.IH" [OF False Inr] by blast
    qed
  qed
qed

lemma ParseFuel_enough:
  "length (exp p) - index p \<le> n \<Longrightarrow> ParseFuel n p = Some (ParseLoop p)"
proof (induction n arbitrary: p)
  case 0
  then show ?case by (simp add: ParseLoop_done)
next
  case (Suc n)
  show ?case
  proof (cases "length (exp p) \<le> index p")
    case True
    then show ?thesis by (simp add: ParseLoop_done)
  next
    case False
    show ?thesis
    proof (cases "loopBody p")
      case (Inl e)
      have "ParseLoop p = Inl e"
        by (subst ParseLoop.simps) (simp add: False Inl)
      then show ?thesis using False Inl by simp
    next
      case (Inr p')
      from loopBody_Inr [OF _ Inr] False Suc.prems
      have "length (exp p') - index p' \<le> n" by (auto split: if_splits)
      then have "ParseFuel n p' = Some (ParseLoop p')" by (rule Suc.IH)
      moreover have "ParseLoop p = ParseLoop p'"
        by (subst ParseLoop.simps) (simp add: False Inr)
      ultimately show ?thesis using False Inr by simp
    qed
  qed
qed

section \<open>Parsing chains of tokens\<close>

lemma pairTokens_length: "length (pairTokens rest) = 2 * length rest"
  by (induction rest) (auto simp: pairTokens_def)

lemma chainTokens_length: "length (chainTokens v rest) = 1 + 2 * length rest"
  by (simp add: chainTokens_def pairTokens_length)

lemma chainTokens_snoc: "chainTokens v (rest @ [(o', x)]) = chainTokens v rest @ [o', x]"
  by (simp add: chainTokens_def pairTokens_def)

lemma chainTree_snoc:
  "chainTree t (rest @ [(o', x)]) = opNode o' (chainTree t rest) (ValNode (atoiVal x))"
  by (simp add: chainTree_def)

lemma chain_tokens_no_space:
  assumes "CHR '' '' \<notin> set v" and "\<forall>(o', x) \<in> set rest. isOp o' \<and> CHR '' '' \<notin> set x"
  shows "\<forall>t \<in> set (chainTokens v rest). CHR '' '' \<notin> set t"
  using assms by (auto simp: chainTokens_def pairTokens_def isOp_def)

lemma literal_chain_tokens:
  assumes "isLiteral v" and "\<forall>(o', x) \<in> set rest. isOp o' \<and> isLiteral x"
  shows "\<not> isOp v \<and> CHR '' '' \<notin> set v \<and>
    (\<forall>(o', x) \<in> set rest. isOp o' \<and> CHR '' '' \<notin> set x)"
  using assms by (auto simp: isLiteral_not_op isLiteral_no_space)

lemma ParseLoop_pairs:
  "exp p = pre @ pairTokens rest @ post \<Longrightarrow> index p = length pre \<Longrightarrow>
   \<forall>(o', x) \<in> set rest. isOp o' \<Longrightarrow>
   ParseLoop p =
     ParseLoop (p\<lparr>index := length pre + 2 * length rest, prev := chainTree (prev p) rest\<rparr>)"
proof (induction rest arbitrary: p pre)
  case Nil
  have "p\<lparr>index := length pre, prev := prev p\<rparr> = p"
    using Nil.prems(2) [symmetric] by simp
  then show ?case by (simp add: chainTree_def)
next
  case (Cons a rest)
  obtain o' x where a: "a = (o', x)" by (cases a)
  from Cons.prems a have e: "exp p = pre @ o' # x # pairTokens rest @ post"
    by (simp add: pairTokens_def)
  from Cons.prems a have op: "isOp o'" by simp
  let ?q = "p\<lparr>index := index p + 2, prev := opNode o' (prev p) (ValNode (atoiVal x))\<rparr>"
  have i: "index p = length pre" by (rule Cons.prems)
  have t0: "exp p ! index p = o'" using e i by simp
  have t1: "exp p ! (index p + 1) = x" using e i by (simp add: nth_append)
  have "ParseLoop p = ParseLoop ?q"
    using ParseLoop_op [of p] e i op t0 t1 by simp
  also have "\<dots> = ParseLoop (?q\<lparr>index := length (pre @ [o', x]) + 2 * length rest,
      prev := chainTree (prev ?q) rest\<rparr>)"
    using Cons.prems a e i by (intro Cons.IH) auto
  finally show ?case using a i by (simp add: chainTree_def)
qed

lemma ParseLoop_chain:
  assumes "exp p = pre @ chainTokens v rest @ post" and "index p = length pre"
    and "\<not> isOp v" and "\<forall>(o', x) \<in> set rest. isOp o'"
  shows "ParseLoop p =
     ParseLoop (p\<lparr>index := length pre + 1 + 2 * length rest,
       prev := chainTree (ValNode (atoiVal v)) rest\<rparr>)"
proof -
  let ?q = "p\<lparr>index := index p + 1, prev := ValNode (atoiVal v)\<rparr>"
  have t: "exp p ! index p = v" using assms(1,2) by (simp add: chainTokens_def)
  have "ParseLoop p = ParseLoop ?q"
    using ParseLoop_value [of p] assms(1,2,3) t by (simp add: chainTokens_def)
  also have "\<dots> = ParseLoop (?q\<lparr>index := length (pre @ [v]) + 2 * length rest,
      prev := chainTree (prev ?q) rest\<rparr>)"
    using assms by (intro ParseLoop_pairs [where post = post]) (auto simp: chainTokens_def)
  finally show ?thesis by simp
qed

lemma Parse_chain:
  assumes "\<not> isOp v" and "CHR '' '' \<notin> set v"
    and "\<forall>(o', x) \<in> set rest. isOp o' \<and> CHR '' '' \<notin> set x"
  shows "Parse zeroParser (Join (chainTokens v rest) '' '') =
     Inr \<lparr>exp = chainTokens v rest, index = length (chainTokens v rest),
          prev = chainTree (ValNode (atoiVal v)) rest\<rparr>"
proof -
  let ?ts = "chainTokens v rest"
  have sp: "Split (Join ?ts '' '') CHR '' '' = ?ts"
    using assms by (intro Split_Join) (auto simp: chainTokens_def pairTokens_def isOp_def)
  let ?p0 = "\<lparr>exp = ?ts, index = 0, prev = Nil_Node\<rparr>"
  let ?p1 = "\<lparr>exp = ?ts, index = 1, prev = ValNode (atoiVal v)\<rparr>"
  have "ParseLoop ?p0 = ParseLoop ?p1"
    using ParseLoop_value [of ?p0] assms(1) by (simp add: chainTokens_def)
  also have "\<dots> = ParseLoop (?p1\<lparr>index := length [v] + 2 * length rest,
      prev := chainTree (prev ?p1) rest\<rparr>)"
    using assms(3) by (intro ParseLoop_pairs [where post = "[]"]) (auto simp: chainTokens_def)
  also have "\<dots> = Inr \<lparr>exp = ?ts, index = length ?ts,
      prev = chainTree (ValNode (atoiVal v)) rest\<rparr>"
    by (subst ParseLoop_done) (simp_all add: chainTokens_def pairTokens_def length_concat o_def split_def sum_list_triv)
  finally show ?thesis
    by (simp add: Parse_def zeroParser_def sp)
qed

lemma Parse_first_value:
  assumes "\<not> isOp (hd (Split s CHR '' ''))"
  shows "Parse zeroParser s =
    ParseLoop \<lparr>exp = Split s CHR '' '', index = 1,
      prev = ValNode (atoiVal (hd (Split s CHR '' '')))\<rparr>"
proof -
  let ?ts = "Split s CHR '' ''"
  let ?p0 = "\<lparr>exp = ?ts, index = 0, prev = Nil_Node\<rparr>"
  have n: "?ts \<noteq> []" by (rule Split_not_Nil)
  then have h: "?ts ! 0 = hd ?ts" by (simp add: hd_conv_nth)
  have "ParseLoop ?p0 =
      ParseLoop (?p0\<lparr>index := index ?p0 + 1, prev := ValNode (atoiVal (exp ?p0 ! index ?p0))\<rparr>)"
    using n assms h by (intro ParseLoop_value) simp_all
  then show ?thesis
    by (simp add: Parse_def zeroParser_def h)
qed

section \<open>Interpreting trees\<close>

lemma Interpret_chainTree:
  "Interpret (chainTree t rest) =
     (case Interpret t of Inl e \<Rightarrow> Inl e | Inr a \<Rightarrow> Inr (chainFold a rest))"
proof (induction rest arbitrary: t)
  case Nil
  then show ?case by (simp add: chainTree_def chainFold_def split: sum.splits)
next
  case (Cons a rest)
  obtain o' x where a: "a = (o', x)" by (cases a)
  have "chainTree t (a # rest) = chainTree (opNode o' t (ValNode (atoiVal x))) rest"
    by (simp add: chainTree_def a)
  moreover have "\<And>b. chainFold b (a # rest) =
      chainFold (if o' = ''+'' then b + atoiVal x else b - atoiVal x) rest"
    by (simp add: chainFold_def a)
  ultimately show ?case
    by (simp add: Cons.IH opNode_def split: sum.splits)
qed

lemma chainFold_int:
  "\<forall>(o', x) \<in> set rest. isLiteral x \<and> inRange (literalValue x) \<Longrightarrow>
   chainFold (word_of_int a) rest = word_of_int (intFold a rest)"
proof (induction rest arbitrary: a)
  case Nil
  then show ?case by (simp add: chainFold_def intFold_def)
next
  case (Cons p rest)
  obtain o' x where p: "p = (o', x)" by (cases p)
  from Cons.prems p have x: "atoiVal x = word_of_int (literalValue x)"
    by (simp add: atoiVal_def Atoi_literal)
  let ?b = "if o' = ''+'' then a + literalValue x else a - literalValue x"
  have "chainFold (word_of_int a) (p # rest) = chainFold (word_of_int ?b) rest"
    by (simp add: chainFold_def p x)
  also have "\<dots> = word_of_int (intFold ?b rest)"
    using Cons.prems by (intro Cons.IH) simp
  also have "intFold ?b rest = intFold a (p # rest)"
    by (simp add: intFold_def p)
  finally show ?case .
qed

lemma chainTree_shape:
  "shapeOK t \<Longrightarrow> isValNode t \<or> isOpNode t \<Longrightarrow>
   shapeOK (chainTree t rest) \<and>
   countOps (chainTree t rest) = countOps t + length rest \<and>
   countVals (chainTree t rest) = countVals t + length rest"
proof (induction rest arbitrary: t)
  case Nil
  then show ?case by (simp add: chainTree_def)
next
  case (Cons a rest)
  obtain o' x where a: "a = (o', x)" by (cases a)
  let ?u = "opNode o' t (ValNode (atoiVal x))"
  have u: "chainTree t (a # rest) = chainTree ?u rest"
    by (simp add: chainTree_def a)
  have "shapeOK ?u" and "isValNode ?u \<or> isOpNode ?u"
    using Cons.prems by (simp_all add: opNode_def)
  from Cons.IH [OF this] show ?case
    by (simp add: u) (simp add: opNode_def)
qed

lemma Interpret_noNil: "noNil t \<Longrightarrow> \<exists>v. Interpret t = Inr v"
  by (induction t) auto

lemma Interpret_Inl: "Interpret t = Inl e \<Longrightarrow> e = NilDereference \<and> \<not> noNil t"
  by (induction t) (auto split: sum.splits)

lemma Interpret_Inr: "Interpret t = Inr v \<Longrightarrow> noNil t"
  by (induction t arbitrary: v) (auto split: sum.splits)

section \<open>Evaluation of concrete inputs\<close>

lemmas eval_defs =
  isLiteral_def isOp_def unsignedPart_def hasSign_def isDigit_def digitsVal_def digitVal_def
  maxInt_def minInt_def atoiVal_def Atoi_def atoiFast_def chainTokens_def pairTokens_def chainFold_def
  chainTree_def opNode_def literalValue_def inRange_def intFold_def

section \<open>Left-to-right evaluation\<close>

text \<open>
  C1. For an expression of integer literals and operators, alternating and joined by
  single spaces, parsing and then interpreting the root returns the strict
  left-to-right fold of the values, in the arithmetic of \<^verbatim>\<open>int\<close>. When every literal
  is in the range of \<^verbatim>\<open>int\<close>, that is the fold of the integers the literals denote,
  reduced to 64 bits, and the very integer when it is in the range too.
  \<^verbatim>\<open>"1 + 2"\<close> gives 3, \<^verbatim>\<open>"1 + 2 - 3"\<close> gives 0 and \<^verbatim>\<open>"5"\<close> gives 5.
\<close>

theorem interpretString_left_fold:
  assumes "isLiteral v" and "\<forall>(o', x) \<in> set rest. isOp o' \<and> isLiteral x"
  shows "interpretString (Join (chainTokens v rest) '' '') = Inr (chainFold (atoiVal v) rest)
    \<and> (inRange (literalValue v) \<and> (\<forall>(o', x) \<in> set rest. inRange (literalValue x)) \<longrightarrow>
         chainFold (atoiVal v) rest = word_of_int (intFold (literalValue v) rest)
         \<and> (inRange (intFold (literalValue v) rest) \<longrightarrow>
              sint (chainFold (atoiVal v) rest) = intFold (literalValue v) rest))
    \<and> interpretString ''1 + 2'' = Inr 3
    \<and> interpretString ''1 + 2 - 3'' = Inr 0
    \<and> interpretString ''5'' = Inr 5"
proof -
  have general: "interpretString (Join (chainTokens v rest) '' '') = Inr (chainFold (atoiVal v) rest)"
    if "isLiteral v" and "\<forall>(o', x) \<in> set rest. isOp o' \<and> isLiteral x" for v rest
  proof -
    from literal_chain_tokens [OF that]
    have "Parse zeroParser (Join (chainTokens v rest) '' '') =
        Inr \<lparr>exp = chainTokens v rest, index = length (chainTokens v rest),
             prev = chainTree (ValNode (atoiVal v)) rest\<rparr>"
      by (intro Parse_chain) auto
    then show ?thesis
      by (simp add: interpretString_def Interpret_chainTree)
  qed
  have ranged: "chainFold (atoiVal v) rest = word_of_int (intFold (literalValue v) rest)"
    if "inRange (literalValue v)" and "\<forall>(o', x) \<in> set rest. inRange (literalValue x)"
  proof -
    have "atoiVal v = word_of_int (literalValue v)"
      using assms(1) that(1) by (simp add: atoiVal_def Atoi_literal)
    moreover have "\<forall>(o', x) \<in> set rest. isLiteral x \<and> inRange (literalValue x)"
      using assms(2) that(2) by auto
    ultimately show ?thesis by (simp add: chainFold_int)
  qed
  have e1: "interpretString ''1 + 2'' = Inr 3"
    using general [of "''1''" "[(''+'', ''2'')]"] by (simp add: eval_defs)
  have e2: "interpretString ''1 + 2 - 3'' = Inr 0"
    using general [of "''1''" "[(''+'', ''2''), (''-'', ''3'')]"] by (simp add: eval_defs)
  have e3: "interpretString ''5'' = Inr 5"
    using general [of "''5''" "[]"] by (simp add: eval_defs)
  have signed: "sint (chainFold (atoiVal v) rest) = intFold (literalValue v) rest"
    if "inRange (literalValue v)" and "\<forall>(o', x) \<in> set rest. inRange (literalValue x)"
      and "inRange (intFold (literalValue v) rest)"
    using ranged [OF that(1,2)] that(3) by (simp add: sint_in_range)
  show ?thesis
    using general [OF assms] ranged signed e1 e2 e3 by blast
qed

theorem interpretString_left_fold_witness:
  "interpretString ''10 - 4 + -7'' = Inr (- 1)
   \<and> sint (chainFold (atoiVal ''10'') [(''-'', ''4''), (''+'', ''-7'')]) = - 1"
  using interpretString_left_fold [of "''10''" "[(''-'', ''4''), (''+'', ''-7'')]"]
  by (simp add: eval_defs)

section \<open>Where failures can occur\<close>

text \<open>
  C2, as the code has it. The builder reports none of the five error kinds: \<^verbatim>\<open>Parse\<close>
  either returns or stops with an index-out-of-range panic. Interpreting the tree it
  returns cannot fail when the first token of the input is not an operator symbol
  (interpretation fails exactly on a tree with a nil operand).
\<close>

theorem Interpret_after_Parse:
  "(Parse zeroParser s = Inl e \<longrightarrow> e = IndexOutOfRange)
   \<and> (\<not> isOp (hd (Split s CHR '' '')) \<and> Parse zeroParser s = Inr p \<longrightarrow>
        (\<exists>v. Interpret (prev p) = Inr v))
   \<and> ((\<exists>e'. Interpret t = Inl e') = (\<not> noNil t))"
proof -
  have a: "e = IndexOutOfRange" if "Parse zeroParser s = Inl e"
    using that by (auto simp: Parse_def dest: ParseLoop_Inl)
  have b: "\<exists>v. Interpret (prev p) = Inr v"
    if h: "\<not> isOp (hd (Split s CHR '' ''))" and r: "Parse zeroParser s = Inr p"
  proof -
    let ?p1 = "\<lparr>exp = Split s CHR '' '', index = 1,
      prev = ValNode (atoiVal (hd (Split s CHR '' '')))\<rparr>"
    from Parse_first_value [OF h] r have "ParseLoop ?p1 = Inr p" by simp
    moreover have "noNil (prev ?p1)" by simp
    ultimately have "noNil (prev p)" by (rule ParseLoop_noNil [rotated])
    then show ?thesis by (rule Interpret_noNil)
  qed
  have c: "(\<exists>e'. Interpret t = Inl e') = (\<not> noNil t)"
    using Interpret_Inr [of t] Interpret_Inl [of t] by (cases "Interpret t") auto
  from a b c show ?thesis by blast
qed

theorem Interpret_after_Parse_witness:
  "\<not> isOp (hd (Split ''4 - 9'' CHR '' ''))
   \<and> Parse zeroParser ''4 - 9'' =
       Inr \<lparr>exp = [''4'', ''-'', ''9''], index = 3, prev = MinNode (ValNode 4) (ValNode 9)\<rparr>
   \<and> (\<exists>v. Interpret (MinNode (ValNode 4) (ValNode 9)) = Inr v)"
proof -
  let ?p = "\<lparr>exp = [''4'', ''-'', ''9''], index = 3, prev = MinNode (ValNode 4) (ValNode 9)\<rparr>"
  have s: "Split ''4 - 9'' CHR '' '' = [''4'', ''-'', ''9'']"
    by code_simp
  have h: "\<not> isOp (hd (Split ''4 - 9'' CHR '' ''))"
    by (simp add: s isOp_def)
  have r: "Parse zeroParser ''4 - 9'' = Inr ?p"
    by code_simp
  from Interpret_after_Parse [of "''4 - 9''" IndexOutOfRange ?p Nil_Node] h r
  have "\<exists>v. Interpret (prev ?p) = Inr v" by blast
  with h r show ?thesis by simp
qed

theorem Interpret_after_Parse_counterexample:
  "Parse zeroParser ''+ 1'' =
     Inr \<lparr>exp = [''+'', ''1''], index = 2, prev = AddNode Nil_Node (ValNode 1)\<rparr>
   \<and> Interpret (AddNode Nil_Node (ValNode 1)) = Inl NilDereference"
  by code_simp

section \<open>The shape of the tree\<close>

text \<open>
  C3. For an expression of integer literals with \<open>N\<close> operators, the tree the parser
  leaves has exactly \<open>N\<close> operator nodes and \<open>N + 1\<close> value nodes; the right child of
  every operator node is a value node and its left child is a value node or an
  operator node.
\<close>

theorem Parse_tree_shape:
  assumes "isLiteral v" and "\<forall>(o', x) \<in> set rest. isOp o' \<and> isLiteral x"
  shows "\<exists>p. Parse zeroParser (Join (chainTokens v rest) '' '') = Inr p
    \<and> countOps (prev p) = length rest
    \<and> countVals (prev p) = length rest + 1
    \<and> shapeOK (prev p)"
proof -
  from literal_chain_tokens [OF assms]
  have "Parse zeroParser (Join (chainTokens v rest) '' '') =
      Inr \<lparr>exp = chainTokens v rest, index = length (chainTokens v rest),
           prev = chainTree (ValNode (atoiVal v)) rest\<rparr>"
    by (intro Parse_chain) auto
  moreover have "shapeOK (chainTree (ValNode (atoiVal v)) rest) \<and>
      countOps (chainTree (ValNode (atoiVal v)) rest) = countOps (ValNode (atoiVal v)) + length rest \<and>
      countVals (chainTree (ValNode (atoiVal v)) rest) = countVals (ValNode (atoiVal v)) + length rest"
    by (rule chainTree_shape) simp_all
  ultimately show ?thesis by simp
qed

theorem Parse_tree_shape_witness:
  "\<exists>p. Parse zeroParser ''7 - 2 + 4'' = Inr p
    \<and> countOps (prev p) = 2 \<and> countVals (prev p) = 3 \<and> shapeOK (prev p)"
  using Parse_tree_shape [of "''7''" "[(''-'', ''2''), (''+'', ''4'')]"]
  by (simp add: isLiteral_def isOp_def unsignedPart_def hasSign_def isDigit_def
      chainTokens_def pairTokens_def numeral_2_eq_2 numeral_3_eq_3)

section \<open>Tokens that are not literals\<close>

text \<open>
  C4, as the code has it. A token that is neither an integer literal nor an operator
  symbol raises no error: \<^verbatim>\<open>newValNode\<close> drops the error of \<^verbatim>\<open>Atoi\<close>, stores the value
  \<^verbatim>\<open>Atoi\<close> returns, and parsing goes on. So every chain of tokens without spaces,
  operators at the odd positions and anything but an operator first, is parsed to the
  end. The value stored for such a token is 0 when the token has fewer than 19 bytes
  or its leading digits fit in \<^verbatim>\<open>uint64\<close>; otherwise \<^verbatim>\<open>Atoi\<close> stops with a range error
  before it reads the byte that is not a digit, and the value is the largest
  \<^verbatim>\<open>int\<close>, or the smallest after a minus sign.
\<close>

theorem Parse_malformed_token:
  assumes "\<not> isOp v" and "CHR '' '' \<notin> set v"
    and "\<forall>(o', x) \<in> set rest. isOp o' \<and> CHR '' '' \<notin> set x"
  shows "Parse zeroParser (Join (chainTokens v rest) '' '') =
      Inr \<lparr>exp = chainTokens v rest, index = length (chainTokens v rest),
           prev = chainTree (ValNode (atoiVal v)) rest\<rparr>
    \<and> (\<forall>p. index p < length (exp p) \<longrightarrow>
          newValNode p = Inr (ValNode (atoiVal (exp p ! index p)), p\<lparr>index := index p + 1\<rparr>))
    \<and> (\<forall>t. \<not> isLiteral t \<longrightarrow>
          Atoi t =
            (if length t < 19 \<or> digitsVal (leadingDigits t) \<le> maxUint64
             then (0, Some ErrSyntax)
             else (word_of_int (if hd t = CHR ''-'' then minInt else maxInt), Some ErrRange)))
    \<and> atoiVal ''99999999999999999999x'' = word_of_int maxInt"
proof -
  have "newValNode p = Inr (ValNode (atoiVal (exp p ! index p)), p\<lparr>index := index p + 1\<rparr>)"
    if "index p < length (exp p)" for p
    using that by (simp add: newValNode_def atoiVal_def split: prod.splits)
  moreover have "atoiVal ''99999999999999999999x'' = word_of_int maxInt"
    by code_simp
  ultimately show ?thesis
    using Parse_chain [OF assms] Atoi_not_literal by blast
qed

theorem Parse_malformed_token_witness:
  "\<not> isOp ''x1'' \<and> \<not> isLiteral ''x1'' \<and> \<not> isLiteral ''2y''
   \<and> Parse zeroParser ''x1 + 2y'' =
       Inr \<lparr>exp = [''x1'', ''+'', ''2y''], index = 3, prev = AddNode (ValNode 0) (ValNode 0)\<rparr>"
proof -
  have l: "\<not> isOp ''x1'' \<and> \<not> isLiteral ''x1'' \<and> \<not> isLiteral ''2y''"
    by (simp add: isOp_def isLiteral_def unsignedPart_def hasSign_def isDigit_def)
  from Parse_malformed_token [of "''x1''" "[(''+'', ''2y'')]"] l
  have "Parse zeroParser (Join (chainTokens ''x1'' [(''+'', ''2y'')]) '' '') =
      Inr \<lparr>exp = chainTokens ''x1'' [(''+'', ''2y'')],
           index = length (chainTokens ''x1'' [(''+'', ''2y'')]),
           prev = chainTree (ValNode (atoiVal ''x1'')) [(''+'', ''2y'')]\<rparr>
    \<and> Atoi ''x1'' = (0, Some ErrSyntax) \<and> Atoi ''2y'' = (0, Some ErrSyntax)"
    by (simp add: isOp_def)
  then show ?thesis
    using l by (simp add: chainTokens_def pairTokens_def chainTree_def opNode_def atoiVal_def)
qed

theorem Parse_malformed_token_counterexample:
  "\<not> isLiteral ''abc'' \<and> \<not> isOp ''abc''
   \<and> Split ''abc'' CHR '' '' = [''abc'']
   \<and> Parse zeroParser ''abc'' = Inr \<lparr>exp = [''abc''], index = 1, prev = ValNode 0\<rparr>"
  by code_simp

section \<open>The empty input\<close>

text \<open>
  C5, as the code has it. No input yields zero tokens: \<^verbatim>\<open>strings.Split\<close> returns at
  least one element, and for the empty string the single empty token. It is read as a
  value, so parsing the empty string returns the tree \<^verbatim>\<open>ValNode 0\<close>, which evaluates
  to 0.
\<close>

theorem Parse_empty_string:
  "Split s CHR '' '' \<noteq> []
   \<and> Split '''' CHR '' '' = ['''']
   \<and> Parse zeroParser '''' = Inr \<lparr>exp = [''''], index = 1, prev = ValNode 0\<rparr>
   \<and> interpretString '''' = Inr 0"
proof -
  have s: "Split '''' CHR '' '' = ['''']"
    by (simp add: Split_no_sep)
  have "\<not> isLiteral ''''"
    by (simp add: isLiteral_def unsignedPart_def hasSign_def)
  then have a: "atoiVal '''' = 0"
    by (simp add: atoiVal_def Atoi_short)
  have "Parse zeroParser '''' = ParseLoop \<lparr>exp = [''''], index = 1, prev = ValNode 0\<rparr>"
    using Parse_first_value [of "''''"] by (simp add: s a isOp_def)
  then have p: "Parse zeroParser '''' = Inr \<lparr>exp = [''''], index = 1, prev = ValNode 0\<rparr>"
    by (simp add: ParseLoop_done)
  then have "interpretString '''' = Inr 0"
    by (simp add: interpretString_def)
  with s p show ?thesis
    by (simp add: Split_not_Nil)
qed

theorem Parse_empty_string_counterexample:
  "Parse zeroParser '''' = Inr \<lparr>exp = [''''], index = 1, prev = ValNode 0\<rparr>"
  by code_simp

section \<open>A leading operator\<close>

text \<open>
  C6, as the code has it. An input whose first token is an operator symbol raises no
  error of its own. When the operator is the only token, \<^verbatim>\<open>Parse\<close> panics with an index
  out of range. Otherwise the operator node is built with a nil left child and the
  second token as its right operand, and parsing goes on from the third token:
  \<^verbatim>\<open>"+ 1 2"\<close> returns the tree \<^verbatim>\<open>ValNode 2\<close>, which evaluates to 2.
\<close>

theorem Parse_leading_operator:
  assumes "Split s CHR '' '' = t # ts" and "isOp t"
  shows "(ts = [] \<longrightarrow> Parse zeroParser s = Inl IndexOutOfRange)
    \<and> (\<forall>x r. ts = x # r \<longrightarrow>
          Parse zeroParser s =
            ParseLoop \<lparr>exp = t # x # r, index = 2,
              prev = opNode t Nil_Node (ValNode (atoiVal x))\<rparr>)
    \<and> interpretString ''+ 1 2'' = Inr 2"
proof -
  let ?p0 = "\<lparr>exp = t # ts, index = 0, prev = Nil_Node\<rparr>"
  have p: "Parse zeroParser s = ParseLoop ?p0"
    by (simp add: Parse_def zeroParser_def assms(1))
  have a: "Parse zeroParser s = Inl IndexOutOfRange" if "ts = []"
    using ParseLoop_op_last [of ?p0] that assms(2) by (simp add: p)
  have b: "Parse zeroParser s =
      ParseLoop \<lparr>exp = t # x # r, index = 2, prev = opNode t Nil_Node (ValNode (atoiVal x))\<rparr>"
    if "ts = x # r" for x r
    using ParseLoop_op [of ?p0] that assms(2) by (simp add: p numeral_2_eq_2)
  have c: "interpretString ''+ 1 2'' = Inr 2"
    by code_simp
  from a b c show ?thesis by blast
qed

theorem Parse_leading_operator_witness:
  "Split ''- 8'' CHR '' '' = [''-'', ''8''] \<and> isOp ''-''
   \<and> Parse zeroParser ''- 8'' =
       Inr \<lparr>exp = [''-'', ''8''], index = 2, prev = MinNode Nil_Node (ValNode 8)\<rparr>"
proof -
  have s: "Split ''- 8'' CHR '' '' = [''-'', ''8'']"
    by code_simp
  have o: "isOp ''-''"
    by (simp add: isOp_def)
  have v: "atoiVal ''8'' = 8"
    by (simp add: eval_defs)
  from Parse_leading_operator [OF s o]
  have "Parse zeroParser ''- 8'' =
      ParseLoop \<lparr>exp = [''-'', ''8''], index = 2,
        prev = opNode ''-'' Nil_Node (ValNode (atoiVal ''8''))\<rparr>"
    by blast
  then have "Parse zeroParser ''- 8'' =
      Inr \<lparr>exp = [''-'', ''8''], index = 2, prev = MinNode Nil_Node (ValNode 8)\<rparr>"
    by (simp add: ParseLoop_done opNode_def v)
  with s o show ?thesis by blast
qed

theorem Parse_leading_operator_counterexample:
  "hd (Split ''+ 1 2'' CHR '' '') = ''+''
   \<and> Parse zeroParser ''+ 1 2'' =
       Inr \<lparr>exp = [''+'', ''1'', ''2''], index = 3, prev = ValNode 2\<rparr>
   \<and> Interpret (ValNode 2) = Inr 2"
  by code_simp

section \<open>Two values in a row\<close>

text \<open>
  C7, as the code has it. Two value tokens in a row raise no error: a value token where
  an operator could stand replaces the tree built so far by a fresh value node. An
  expression followed by a second expression is parsed to the tree of the second one
  alone; \<^verbatim>\<open>"1 2"\<close> returns the tree \<^verbatim>\<open>ValNode 2\<close>.
\<close>

theorem Parse_value_after_value:
  assumes "\<not> isOp v" and "CHR '' '' \<notin> set v"
    and "\<forall>(o', x) \<in> set rest. isOp o' \<and> CHR '' '' \<notin> set x"
    and "\<not> isOp w" and "CHR '' '' \<notin> set w"
    and "\<forall>(o', x) \<in> set rest2. isOp o' \<and> CHR '' '' \<notin> set x"
  shows "Parse zeroParser (Join (chainTokens v rest @ chainTokens w rest2) '' '') =
      Inr \<lparr>exp = chainTokens v rest @ chainTokens w rest2,
           index = length (chainTokens v rest @ chainTokens w rest2),
           prev = chainTree (ValNode (atoiVal w)) rest2\<rparr>"
proof -
  let ?ts = "chainTokens v rest @ chainTokens w rest2"
  have "\<forall>t \<in> set ?ts. CHR '' '' \<notin> set t"
    using chain_tokens_no_space [OF assms(2,3)] chain_tokens_no_space [OF assms(5,6)]
    by auto
  then have sp: "Split (Join ?ts '' '') CHR '' '' = ?ts"
    by (intro Split_Join) (simp_all add: chainTokens_def)
  let ?p0 = "\<lparr>exp = ?ts, index = 0, prev = Nil_Node\<rparr>"
  let ?p1 = "?p0\<lparr>index := length ([] :: string list) + 1 + 2 * length rest,
      prev := chainTree (ValNode (atoiVal v)) rest\<rparr>"
  let ?p2 = "?p1\<lparr>index := length (chainTokens v rest) + 1 + 2 * length rest2,
      prev := chainTree (ValNode (atoiVal w)) rest2\<rparr>"
  have "ParseLoop ?p0 = ParseLoop ?p1"
    using assms(1,3) by (intro ParseLoop_chain [where post = "chainTokens w rest2"]) auto
  also have "\<dots> = ParseLoop ?p2"
    using assms(4,6)
    by (intro ParseLoop_chain [where post = "[]"]) (auto simp: chainTokens_length)
  also have "\<dots> = Inr ?p2"
    by (rule ParseLoop_done) (simp add: chainTokens_length)
  finally show ?thesis
    by (simp add: Parse_def zeroParser_def sp chainTokens_length)
qed

theorem Parse_value_after_value_witness:
  "Parse zeroParser ''1 + 2 3 - 4'' =
      Inr \<lparr>exp = [''1'', ''+'', ''2'', ''3'', ''-'', ''4''], index = 6,
           prev = MinNode (ValNode 3) (ValNode 4)\<rparr>"
  using Parse_value_after_value [of "''1''" "[(''+'', ''2'')]" "''3''" "[(''-'', ''4'')]"]
  by (simp add: eval_defs)

theorem Parse_value_after_value_counterexample:
  "Split ''1 2'' CHR '' '' = [''1'', ''2'']
   \<and> Parse zeroParser ''1 2'' = Inr \<lparr>exp = [''1'', ''2''], index = 2, prev = ValNode 2\<rparr>
   \<and> Interpret (ValNode 2) = Inr 2"
  by code_simp

section \<open>An operator without its operand\<close>

text \<open>
  C8, as the code has it. An expression followed by one more operator token, such as
  \<^verbatim>\<open>"1 +"\<close>, returns no tree: \<^verbatim>\<open>newValNode\<close> reads past the end of the tokens and the
  call stops with an index-out-of-range panic. Two operator tokens in a row raise no
  error: the second is read as the right operand of the first, with the value 0.
\<close>

theorem Parse_operator_without_value:
  assumes "\<not> isOp v" and "CHR '' '' \<notin> set v"
    and "\<forall>(o', x) \<in> set rest. isOp o' \<and> CHR '' '' \<notin> set x"
    and "isOp o1"
  shows "Parse zeroParser (Join (chainTokens v rest @ [o1]) '' '') = Inl IndexOutOfRange
    \<and> (isOp o2 \<longrightarrow>
         Parse zeroParser (Join (chainTokens v rest @ [o1, o2]) '' '') =
           Inr \<lparr>exp = chainTokens v rest @ [o1, o2],
                index = length (chainTokens v rest @ [o1, o2]),
                prev = opNode o1 (chainTree (ValNode (atoiVal v)) rest) (ValNode 0)\<rparr>)"
proof -
  let ?ts = "chainTokens v rest @ [o1]"
  have "\<forall>t \<in> set ?ts. CHR '' '' \<notin> set t"
    using chain_tokens_no_space [OF assms(2,3)] assms(4) by (auto simp: isOp_def)
  then have sp: "Split (Join ?ts '' '') CHR '' '' = ?ts"
    by (intro Split_Join) simp_all
  let ?p0 = "\<lparr>exp = ?ts, index = 0, prev = Nil_Node\<rparr>"
  let ?p1 = "?p0\<lparr>index := length ([] :: string list) + 1 + 2 * length rest,
      prev := chainTree (ValNode (atoiVal v)) rest\<rparr>"
  have "ParseLoop ?p0 = ParseLoop ?p1"
    using assms(1,3) by (intro ParseLoop_chain [where post = "[o1]"]) auto
  also have "\<dots> = Inl IndexOutOfRange"
  proof (rule ParseLoop_op_last)
    show "index ?p1 + 1 = length (exp ?p1)"
      by (simp add: chainTokens_length)
    have "?ts ! length (chainTokens v rest) = o1"
      by (simp only: nth_append_length)
    then show "isOp (exp ?p1 ! index ?p1)"
      using assms(4) by (simp add: chainTokens_length)
  qed
  finally have a: "Parse zeroParser (Join ?ts '' '') = Inl IndexOutOfRange"
    by (simp add: Parse_def zeroParser_def sp)
  have b: "Parse zeroParser (Join (chainTokens v rest @ [o1, o2]) '' '') =
           Inr \<lparr>exp = chainTokens v rest @ [o1, o2],
                index = length (chainTokens v rest @ [o1, o2]),
                prev = opNode o1 (chainTree (ValNode (atoiVal v)) rest) (ValNode 0)\<rparr>"
    if "isOp o2"
  proof -
    have "\<forall>(o', x) \<in> set (rest @ [(o1, o2)]). isOp o' \<and> CHR '' '' \<notin> set x"
      using assms(3,4) that by (auto simp: isOp_def)
    from Parse_chain [OF assms(1,2) this] show ?thesis
      by (simp add: chainTokens_snoc chainTree_snoc atoiVal_op [OF that])
  qed
  from a b show ?thesis by blast
qed

theorem Parse_operator_without_value_witness:
  "Parse zeroParser ''1 +'' = Inl IndexOutOfRange
   \<and> Parse zeroParser ''1 + -'' =
       Inr \<lparr>exp = [''1'', ''+'', ''-''], index = 3, prev = AddNode (ValNode 1) (ValNode 0)\<rparr>"
  using Parse_operator_without_value [of "''1''" "[]" "''+''" "''-''"]
  by (simp add: eval_defs)

theorem Parse_operator_without_value_counterexample:
  "Split ''1 + + 2'' CHR '' '' = [''1'', ''+'', ''+'', ''2'']
   \<and> Parse zeroParser ''1 + + 2'' =
       Inr \<lparr>exp = [''1'', ''+'', ''+'', ''2''], index = 4, prev = ValNode 2\<rparr>
   \<and> Interpret (ValNode 2) = Inr 2"
  by code_simp

section \<open>Separating spaces\<close>

text \<open>
  C9, as the code has it. Tokens are separated by exactly one space: the input is cut
  at every space character. Tokens without spaces joined by single spaces come back as
  they are, and every space separates two tokens, so a second space between two tokens
  adds an empty token (read as the value 0 where a value can stand).
\<close>

theorem Split_single_spaces:
  "(ts \<noteq> [] \<and> (\<forall>t \<in> set ts. CHR '' '' \<notin> set t) \<longrightarrow> Split (Join ts '' '') CHR '' '' = ts)
   \<and> Split (a @ '' '' @ b) CHR '' '' = Split a CHR '' '' @ Split b CHR '' ''
   \<and> Split (a @ ''  '' @ b) CHR '' '' = Split a CHR '' '' @ [''''] @ Split b CHR '' ''
   \<and> atoiVal '''' = 0"
proof -
  have "Split (CHR '' '' # b) CHR '' '' = [] # Split b CHR '' ''"
    using Split_first [of "CHR '' ''" "[]" b] by simp
  then have "Split (a @ ''  '' @ b) CHR '' '' = Split a CHR '' '' @ [''''] @ Split b CHR '' ''"
    by (simp add: Split_append_sep)
  moreover have "\<not> isLiteral ''''"
    by (simp add: isLiteral_def unsignedPart_def hasSign_def)
  ultimately show ?thesis
    using Split_Join [of ts "CHR '' ''"]
    by (simp add: Split_append_sep atoiVal_def Atoi_short)
qed

theorem Split_single_spaces_witness:
  "Split ''12 - 5'' CHR '' '' = [''12'', ''-'', ''5'']"
  using Split_single_spaces [of "[''12'', ''-'', ''5'']"]
  by simp

theorem Split_single_spaces_counterexample:
  "Parse zeroParser ''1 + 2'' =
     Inr \<lparr>exp = [''1'', ''+'', ''2''], index = 3, prev = AddNode (ValNode 1) (ValNode 2)\<rparr>
   \<and> Parse zeroParser ''1  + 2'' =
     Inr \<lparr>exp = [''1'', '''', ''+'', ''2''], index = 4, prev = AddNode (ValNode 0) (ValNode 2)\<rparr>
   \<and> interpretString ''1 + 2'' = Inr 3
   \<and> interpretString ''1  + 2'' = Inr 2"
  by code_simp

section \<open>Termination\<close>

text \<open>
  C10. \<^verbatim>\<open>Parse\<close> terminates on every input: an iteration of its loop that does not panic
  moves the cursor forward, by two for an operator token and by one for any other, and
  leaves the tokens as they are; so a bound of one iteration per remaining token is
  never used up.
\<close>

theorem Parse_terminates:
  "(index p < length (exp p) \<and> loopBody p = Inr p' \<longrightarrow>
      exp p' = exp p \<and> index p' = index p + (if isOp (exp p ! index p) then 2 else 1))
   \<and> ParseFuel (length (exp p) - index p) p = Some (ParseLoop p)
   \<and> ParseFuel (length (Split s CHR '' '') - index q) (q\<lparr>exp := Split s CHR '' ''\<rparr>)
        = Some (Parse q s)"
proof -
  have "ParseFuel (length (Split s CHR '' '') - index q) (q\<lparr>exp := Split s CHR '' ''\<rparr>)
      = Some (ParseLoop (q\<lparr>exp := Split s CHR '' ''\<rparr>))"
    by (rule ParseFuel_enough) simp
  then show ?thesis
    using loopBody_Inr [of p p'] ParseFuel_enough [of p "length (exp p) - index p"]
    by (simp add: Parse_def)
qed

theorem Parse_terminates_witness:
  "loopBody \<lparr>exp = [''1'', ''+'', ''2''], index = 1, prev = ValNode 1\<rparr>
       = Inr \<lparr>exp = [''1'', ''+'', ''2''], index = 3, prev = AddNode (ValNode 1) (ValNode 2)\<rparr>
   \<and> ParseFuel 2 \<lparr>exp = [''1'', ''+'', ''2''], index = 1, prev = ValNode 1\<rparr>
       = Some (ParseLoop \<lparr>exp = [''1'', ''+'', ''2''], index = 1, prev = ValNode 1\<rparr>)"
proof -
  let ?p = "\<lparr>exp = [''1'', ''+'', ''2''], index = 1, prev = ValNode 1\<rparr>"
  let ?p' = "\<lparr>exp = [''1'', ''+'', ''2''], index = 3, prev = AddNode (ValNode 1) (ValNode 2)\<rparr>"
  have h: "index ?p < length (exp ?p) \<and> loopBody ?p = Inr ?p'"
    by (simp add: loopBody_def newAddNode_def newValNode_def Atoi_def atoiFast_def unsignedPart_def
        hasSign_def isDigit_def digitsVal_def digitVal_def maxInt_def minInt_def)
  have n: "length (exp ?p) - index ?p = 2"
    by simp
  from Parse_terminates [of ?p ?p' "''1 + 2''" zeroParser]
  have "ParseFuel (length (exp ?p) - index ?p) ?p = Some (ParseLoop ?p)"
    by blast
  then have "ParseFuel 2 ?p = Some (ParseLoop ?p)"
    by (simp only: n)
  with h show ?thesis
    by blast
qed

end
